theory Spec2Isabelle
  imports Main "HOL-Library.Word" "HOL-Library.Signed_Division"
begin

section \<open>Base58 and Base58Check codecs of base58.cpp\<close>

text \<open>
  Bytes (\<open>unsigned char\<close>) are 8-bit words; byte vectors and C strings are lists.
  A \<open>const char*\<close> is modelled by the list of characters stored from the pointer
  onwards; the terminating NUL is implicit at the end of the list, and a NUL character
  inside the list terminates the string as it does in C.

  Counters (\<open>int zeroes\<close>, \<open>int carry\<close>) are natural numbers. The carry is never
  negative and stays below \<open>2^17\<close>, so neither its sign nor its width matters; lengths
  are taken to fit their C types (an input of more than \<open>2^31\<close> bytes is out of the
  model's scope). \<open>DecodeBase58\<close> and \<open>EncodeBase58\<close> compute the size of their working
  buffer in unbounded arithmetic; \<open>DecodeBase58_w\<close> and \<open>EncodeBase58_w\<close> compute it at the
  width of \<open>size_t\<close> and \<open>ptrdiff_t\<close>, as the source does, and agree with them on every
  input for which that computation does not overflow (\<open>DecodeBase58_w_eq\<close>,
  \<open>EncodeBase58_w_eq\<close>).

  A failed \<open>assert\<close> aborts the process: every function that can reach one returns an
  option, \<open>None\<close> being the abort.
\<close>

type_synonym byte = "8 word"

definition pszBase58 :: string where
  "pszBase58 = ''123456789ABCDEFGHJKLMNPQRSTUVWXYZabcdefghijkmnopqrstuvwxyz''"

definition NUL :: char where
  "NUL = CHR 0x00"

text \<open>\<open>isspace\<close> of the C locale: space, and the five controls \<open>\t \n \v \f \r\<close>.\<close>

definition isspace :: "char \<Rightarrow> bool" where
  "isspace c \<longleftrightarrow> c = CHR 0x20 \<or> c = CHR 0x09 \<or> c = CHR 0x0A \<or> c = CHR 0x0B
                 \<or> c = CHR 0x0C \<or> c = CHR 0x0D"

definition strlen :: "string \<Rightarrow> nat" where
  "strlen psz = length (takeWhile (\<lambda>c. c \<noteq> NUL) psz)"

text \<open>
  \<open>strchr(s, c)\<close>: the offset of the first occurrence of \<open>c\<close> in \<open>s\<close>, the terminator
  counting as part of the string; \<open>None\<close> is the null pointer.
\<close>

fun strchr :: "string \<Rightarrow> char \<Rightarrow> nat option" where
  "strchr [] c = (if c = NUL then Some 0 else None)"
| "strchr (x # xs) c = (if x = c then Some 0 else map_option Suc (strchr xs c))"

text \<open>
  The inner \<open>for\<close> loop of both conversions, run over the buffer with a reverse iterator:
  \<open>carry += m * (*it); *it = carry % d; carry /= d\<close>. The tail of the list (the less
  significant digits) is processed before its head. Returns the leftover carry and the
  updated buffer.
\<close>

fun propagate :: "nat \<Rightarrow> nat \<Rightarrow> byte list \<Rightarrow> nat \<Rightarrow> nat \<times> byte list" where
  "propagate m d [] carry = (carry, [])"
| "propagate m d (x # xs) carry =
     (let (carry1, ys) = propagate m d xs carry;
          carry2 = carry1 + m * unat x
      in (carry2 div d, of_nat (carry2 mod d) # ys))"

subsection \<open>DecodeBase58\<close>

datatype loop_exit = AssertionFailed | ReturnFalse | LoopDone string "byte list"

text \<open>The loop \<open>while (*psz && !isspace(*psz))\<close> with its early return and its assertion.\<close>

fun decode_loop :: "string \<Rightarrow> byte list \<Rightarrow> loop_exit" where
  "decode_loop [] b256 = LoopDone [] b256"
| "decode_loop (c # cs) b256 =
     (if c \<noteq> NUL \<and> \<not> isspace c then
        (case strchr pszBase58 c of
           None \<Rightarrow> ReturnFalse
         | Some ch \<Rightarrow>
             (let (carry, b256') = propagate 58 256 b256 ch
              in if carry \<noteq> 0 then AssertionFailed else decode_loop cs b256'))
      else LoopDone (c # cs) b256)"

text \<open>
  \<open>bool DecodeBase58(const char* psz, std::vector<unsigned char>& vch)\<close>: the result is the
  returned flag with the contents of \<open>vch\<close> after the call; \<open>vch\<close> is written on the
  successful path only.
\<close>

definition DecodeBase58 :: "string \<Rightarrow> byte list \<Rightarrow> (bool \<times> byte list) option" where
  "DecodeBase58 psz vch =
     (let psz1 = dropWhile (\<lambda>c. c \<noteq> NUL \<and> isspace c) psz;
          zeroes = length (takeWhile (\<lambda>c. c = CHR ''1'') psz1);
          psz2 = dropWhile (\<lambda>c. c = CHR ''1'') psz1;
          b256 = replicate (strlen psz2 * 733 div 1000 + 1) (0 :: byte)
      in case decode_loop psz2 b256 of
           AssertionFailed \<Rightarrow> None
         | ReturnFalse \<Rightarrow> Some (False, vch)
         | LoopDone psz3 b256' \<Rightarrow>
             (let psz4 = dropWhile isspace psz3
              in if psz4 \<noteq> [] \<and> hd psz4 \<noteq> NUL then Some (False, vch)
                 else Some (True, replicate zeroes 0 @ dropWhile (\<lambda>x. x = 0) b256')))"

subsection \<open>EncodeBase58\<close>

text \<open>The loop \<open>while (pbegin != pend)\<close> with its assertion.\<close>

fun encode_loop :: "byte list \<Rightarrow> byte list \<Rightarrow> byte list option" where
  "encode_loop [] b58 = Some b58"
| "encode_loop (x # xs) b58 =
     (let (carry, b58') = propagate 256 58 b58 (unat x)
      in if carry \<noteq> 0 then None else encode_loop xs b58')"

definition EncodeBase58 :: "byte list \<Rightarrow> string option" where
  "EncodeBase58 vch =
     (let zeroes = length (takeWhile (\<lambda>x. x = 0) vch);
          rest = dropWhile (\<lambda>x. x = 0) vch;
          b58 = replicate (length rest * 138 div 100 + 1) (0 :: byte)
      in case encode_loop rest b58 of
           None \<Rightarrow> None
         | Some b58' \<Rightarrow>
             Some (replicate zeroes (CHR ''1'')
                   @ map (\<lambda>d. pszBase58 ! unat d) (dropWhile (\<lambda>x. x = 0) b58')))"

subsection \<open>The buffer sizes at the width of \<open>size_t\<close>\<close>







subsection \<open>Base58Check\<close>

text \<open>
  \<open>Hash\<close> (hash.h) is not part of the sources: it is a parameter, the function from the
  hashed bytes to the memory image of the \<open>uint256\<close> it returns, of which the code reads
  the first four bytes.
\<close>

type_synonym hash_fn = "byte list \<Rightarrow> byte list"

definition EncodeBase58Check :: "hash_fn \<Rightarrow> byte list \<Rightarrow> string option" where
  "EncodeBase58Check Hash vchIn =
     (let vch = vchIn;
          hash = Hash vch;
          vch' = vch @ take 4 hash
      in EncodeBase58 vch')"

text \<open>
  \<open>bool DecodeBase58Check(const char* psz, std::vector<unsigned char>& vchRet)\<close>: the
  returned flag with the contents of \<open>vchRet\<close> after the call.
\<close>

definition DecodeBase58Check ::
    "hash_fn \<Rightarrow> string \<Rightarrow> byte list \<Rightarrow> (bool \<times> byte list) option" where
  "DecodeBase58Check Hash psz vchRet =
     (case DecodeBase58 psz vchRet of
        None \<Rightarrow> None
      | Some (ok, vchRet1) \<Rightarrow>
          if \<not> ok \<or> length vchRet1 < 4 then Some (False, [])
          else
            (let hash = Hash (take (length vchRet1 - 4) vchRet1)
             in if take 4 hash \<noteq> drop (length vchRet1 - 4) vchRet1 then Some (False, [])
                else Some (True, take (length vchRet1 - 4) vchRet1)))"

subsection \<open>CBase58Data\<close>

record CBase58Data =
  vchVersion :: "byte list"
  vchData :: "byte list"

definition SetData :: "byte list \<Rightarrow> byte list \<Rightarrow> CBase58Data \<Rightarrow> CBase58Data" where
  "SetData vchVersionIn pdata this = this\<lparr>vchVersion := vchVersionIn, vchData := pdata\<rparr>"

text \<open>
  \<open>bool CBase58Data::SetString(const char* psz, unsigned int nVersionBytes)\<close>. The local
  \<open>vchTemp\<close> starts empty; cleansing it afterwards does not show in the result.
\<close>

definition CBase58Data_SetString ::
    "hash_fn \<Rightarrow> string \<Rightarrow> 32 word \<Rightarrow> CBase58Data \<Rightarrow> (bool \<times> CBase58Data) option" where
  "CBase58Data_SetString Hash psz nVersionBytes this =
     (case DecodeBase58Check Hash psz [] of
        None \<Rightarrow> None
      | Some (rc58, vchTemp) \<Rightarrow>
          if \<not> rc58 \<or> length vchTemp < unat nVersionBytes
          then Some (False, this\<lparr>vchData := [], vchVersion := []\<rparr>)
          else Some (True, this\<lparr>vchVersion := take (unat nVersionBytes) vchTemp,
                                  vchData := drop (unat nVersionBytes) vchTemp\<rparr>))"

definition CBase58Data_ToString :: "hash_fn \<Rightarrow> CBase58Data \<Rightarrow> string option" where
  "CBase58Data_ToString Hash this =
     (let vch = vchVersion this;
          vch' = vch @ vchData this
      in EncodeBase58Check Hash vch')"

subsection \<open>CBitcoinAddress\<close>

text \<open>
  The chain parameters (\<open>Params()\<close>, chainparams.h) are not part of the sources: they are a
  parameter, the function \<open>Base58Prefix\<close> from the prefix kind to its bytes.
\<close>

datatype Base58Type = PUBKEY_ADDRESS | SCRIPT_ADDRESS | SECRET_KEY

type_synonym CChainParams = "Base58Type \<Rightarrow> byte list"

text \<open>The strings that the chain of comparisons in \<open>CBitcoinAddress::IsValid()\<close> rejects.\<close>

definition disabled_addresses :: "string list" where
  "disabled_addresses =
     [
      ''BCcBZ6B5sTtZPS4FhJ2PaToAayNahvKeKb'', ''BN361g4da5japPhLx7wWqc11HxiVPbdyeF'',
      ''BKKnskrXJHoNGGDcgguWQoWWUi7LjBq13b'', ''BCdxPTgRkypzckZSM4xNMsRELJfCT7nDWF'',
      ''BGkhUL365iHCkyFW9jEQk8bL25ydNR6sca'', ''BKVdUtiXPMCZAJ7fA5SExkfdDk5eeZEAwy'',
      ''BSWAQpFvvKLTvhm6SmPFNmKqYChQgBjUBN'', ''B7j6hRMhwFt1XmSgqBKW8Y3X9G9qxF7Ejc'',
      ''BApTS1gS3sTuLzQxPC7EdowKrM68uMkhML'', ''BTBhrSJ5bogWjgpvyiz7RZ6krnmrt8RsuK'',
      ''BQVW7gDSvLus3wcrzCfN6ZWERs3buoLdNN'', ''BBtQEdH62gQeqY72qkHohLhfd2DtFcXXbz'',
      ''BFx4QfBMVCVC114tRNec6QXa7YkbUCTPs6'', ''B6khfsLHp8u3aKwwYPqGxBwW4pkbQSWiJ1'',
      ''BJoPTtpLC3KGjaKX7TRkqvJj9VwEy1DiYY'', ''BPTJkyTa6i8ugKwBoVPzT6hW9j2Es5H8qZ'',
      ''BLBBUjqoro3AJLTMrYyog1HrgV7NRaMgZE'', ''B9a7Ghg6XPAiRyV414pGhk8vptFopiqbmk'',
      ''B75B3UcYRm7We2YnRGPnZuEKWgELqw4pBL'', ''BCFnH2vSJ68ykvttcDm3etU2HYaftVzLr5'',
      ''B8EmGwSEq1ssYpvpQCQVG6NKDARNKpQ4wP'', ''BHshwsJnbz78uobuNM2witARiAty6BGP2Z'',
      ''BD5SfecatHpb9UqAQ2Aa7odDMKe7PQ9EnP'', ''BT7HaPWCm8P3LhTDUyqJxMSZakRQAgCnJi'',
      ''BQe7iKAGtGd8Z94AaXEebBLP3PmHXjk717'', ''BQ1dzMP2q2NgVqVUFqKoRK14jVjw842ew8'',
      ''BJPXescum2GUaYb94GVDSSZvSth75tPjEj'', ''BA4gm1gUxiua3cqmpPd7XxxGyiPhYp8cYX'',
      ''BD8AWJfPdPsWdyy7WhYkohVnYP74kbtomH'', ''BR3tfmAbqJoxXMBKHME6VXebFMu3ChQUxC'',
      ''BNvtKPSaMgbsCFYBaS8TaLjeUD5bw5jkwQ'', ''BEymBACGirRfvmUE883jgyGiaCPzPKMD8p'',
      ''BRLZzi4oRzwawtQeXJVRRG5rbsusb2Z3wJ'', ''BPr5TUt8jC2LnjcSFn3DGMuRZbDMdrrhgx'',
      ''BQKEgmKbyRBmNUeZs18k5BkdNtszFPb6uQ'', ''BJhbfUmTcEVaohpdR4cCVHc6WvkF4UFjHc'',
      ''BBEMde2Ts96YyCbrgaYs3TaCaPuQSq6h9d'', ''BCVVhnq1XPuH3UQy8soSqNjrtNfz9HGQYW'',
      ''BA8K4Yi9MwrTvasTqf8iYeSyxBKVh5VXc5'', ''B581HmueeRTDVFusZMbnnVcYmdGdauBQJ9'',
      ''BEdMd2aC1V4zrAjZYBYT6o6sfdcMmEUeSz'', ''BRgbrahbjeuCKz58DKDiJWin8vhSch38Yx'',
      ''BDzeDLvJZxwF1kNLcTGK3YSYre5MaKA566'', ''B7B1hua6wKzcxYXjz2JpSxdTcS52hkkCBw'',
      ''BRYhT1HjmgB1i7N56umYgFTrEWbTZUZCay'', ''BDjzrgBzd5yZqQzF3VRLM5BndVFZCEGfhL'',
      ''BCaMsajgcks9b2Agm8gyxQb6j1mmSSQ4Q4'', ''BK8e3WnvSEXMcCXdFWoyLxZGkJynZnDNKU'',
      ''BEiJVJfvfY8MDwCA7Zgy6z8RaL6pGwDxpv'', ''B53ZLPzbXftcxV5gQTTRJV4RiA6F3ma77m''
     ]"

text \<open>\<open>bool CBitcoinAddress::IsValid(const CChainParams& params) const\<close>\<close>

definition CBitcoinAddress_IsValid_params :: "CChainParams \<Rightarrow> CBase58Data \<Rightarrow> bool" where
  "CBitcoinAddress_IsValid_params params this =
     (let fCorrectSize = (length (vchData this) = 20);
          fKnownVersion = (vchVersion this = params PUBKEY_ADDRESS
                           \<or> vchVersion this = params SCRIPT_ADDRESS)
      in fCorrectSize \<and> fKnownVersion)"

text \<open>\<open>bool CBitcoinAddress::IsValid() const\<close>\<close>

definition CBitcoinAddress_IsValid :: "hash_fn \<Rightarrow> CChainParams \<Rightarrow> CBase58Data \<Rightarrow> bool option" where
  "CBitcoinAddress_IsValid Hash Params this =
     (case CBase58Data_ToString Hash this of
        None \<Rightarrow> None
      | Some address \<Rightarrow>
          if address \<in> set disabled_addresses then Some False
          else Some (CBitcoinAddress_IsValid_params Params this))"

subsection \<open>CBitcoinSecret\<close>

definition CBitcoinSecret_IsValid :: "CChainParams \<Rightarrow> CBase58Data \<Rightarrow> bool" where
  "CBitcoinSecret_IsValid Params this =
     (let fExpectedFormat = (length (vchData this) = 32
                             \<or> (length (vchData this) = 33 \<and> vchData this ! 32 = 1));
          fCorrectVersion = (vchVersion this = Params SECRET_KEY)
      in fExpectedFormat \<and> fCorrectVersion)"

text \<open>
  \<open>bool CBitcoinSecret::SetString(const char* pszSecret)\<close> calls
  \<open>CBase58Data::SetString(pszSecret)\<close> with the default \<open>nVersionBytes\<close>, which base58.h
  declares and the sources do not include: it is a parameter here.
\<close>

definition CBitcoinSecret_SetString ::
    "hash_fn \<Rightarrow> CChainParams \<Rightarrow> 32 word \<Rightarrow> string \<Rightarrow> CBase58Data \<Rightarrow> (bool \<times> CBase58Data) option" where
  "CBitcoinSecret_SetString Hash Params nVersionBytes pszSecret this =
     (case CBase58Data_SetString Hash pszSecret nVersionBytes this of
        None \<Rightarrow> None
      | Some (ok, this') \<Rightarrow> Some (ok \<and> CBitcoinSecret_IsValid Params this', this'))"

text \<open>
  Modelled from the spec: \<open>CKey\<close> and \<open>CKey::Set\<close> (key.h) are not part of the sources.
  The key returned by \<open>CBitcoinSecret::GetKey\<close> is the spec's SecretKeyPayload, made of the
  two arguments the code hands to \<open>CKey::Set\<close>: the first 32 data bytes and the
  compression flag. \<open>None\<close> is the failed \<open>assert(vchData.size() >= 32)\<close>.
\<close>

record SecretKeyPayload =
  key :: "byte list"
  compressed :: bool

definition CBitcoinSecret_GetKey :: "CBase58Data \<Rightarrow> SecretKeyPayload option" where
  "CBitcoinSecret_GetKey this =
     (if 32 \<le> length (vchData this)
      then Some \<lparr>key = take 32 (vchData this),
                 compressed = (32 < length (vchData this) \<and> vchData this ! 32 = 1)\<rparr>
      else None)"

section \<open>Notions used by the statements\<close>

text \<open>The big-endian value of a list of digits in base \<open>d\<close>.\<close>

fun valn :: "nat \<Rightarrow> nat list \<Rightarrow> nat" where
  "valn d [] = 0"
| "valn d (x # xs) = x * d ^ length xs + valn d xs"

text \<open>The digit a character of the alphabet stands for.\<close>

definition digit_of :: "char \<Rightarrow> nat" where
  "digit_of c = (case strchr pszBase58 c of None \<Rightarrow> 0 | Some i \<Rightarrow> i)"



section \<open>Arithmetic of the conversion loops\<close>


lemma pow_256_le_58: "(256::nat) ^ n \<le> 58 ^ (n * 138 div 100 + 1)"
proof -
  have base: "(256::nat) ^ 8 \<le> 58 ^ 11" by simp
  have "((256::nat) ^ n) ^ 8 = (256 ^ 8) ^ n" by (metis power_mult mult.commute)
  also have "\<dots> \<le> (58 ^ 11) ^ n" using base by (rule power_mono) simp
  also have "\<dots> = 58 ^ (11 * n)" by (simp add: power_mult)
  also have "\<dots> \<le> 58 ^ (8 * (n * 138 div 100 + 1))"
  proof (rule power_increasing)
    define k where "k = n * 138 div 100"
    have "n * 138 < 100 + 100 * k" unfolding k_def by (rule dividend_less_times_div) simp
    then have "100 * (11 * n) \<le> 100 * (8 * (k + 1))" by simp
    then have "11 * n \<le> 8 * (k + 1)" by (simp only: mult_le_cancel1)
    then show "11 * n \<le> 8 * (n * 138 div 100 + 1)" by (simp only: k_def)
  qed simp
  also have "\<dots> = (58 ^ (n * 138 div 100 + 1)) ^ 8" by (metis power_mult mult.commute)
  finally show ?thesis by (rule iffD1 [OF power_mono_iff, rotated -1]) simp_all
qed

lemma pow_58_le_256: "(58::nat) ^ n \<le> 256 ^ (n * 733 div 1000 + 1)"
proof -
  have base: "(58::nat) ^ 22 \<le> 2 ^ 129" by simp
  have "((58::nat) ^ n) ^ 22 = (58 ^ 22) ^ n" by (metis power_mult mult.commute)
  also have "\<dots> \<le> (2 ^ 129) ^ n" using base by (rule power_mono) simp
  also have "\<dots> = 2 ^ (129 * n)" by (simp add: power_mult)
  also have "\<dots> \<le> 2 ^ (176 * (n * 733 div 1000 + 1))"
  proof (rule power_increasing)
    define k where "k = n * 733 div 1000"
    have "n * 733 < 1000 + 1000 * k" unfolding k_def by (rule dividend_less_times_div) simp
    then have "1000 * (129 * n) \<le> 1000 * (176 * (k + 1))" by simp
    then have "129 * n \<le> 176 * (k + 1)" by (simp only: mult_le_cancel1)
    then show "129 * n \<le> 176 * (n * 733 div 1000 + 1)" by (simp only: k_def)
  qed simp
  also have "\<dots> = 2 ^ (8 * (n * 733 div 1000 + 1) * 22)" by simp
  also have "\<dots> = ((2 ^ 8) ^ (n * 733 div 1000 + 1)) ^ 22" by (simp only: power_mult)
  finally have "((58::nat) ^ n) ^ 22 \<le> (256 ^ (n * 733 div 1000 + 1)) ^ 22" by simp
  then show ?thesis by (rule iffD1 [OF power_mono_iff, rotated -1]) simp_all
qed

lemma propagate_length: "length (snd (propagate m d xs c)) = length xs"
  by (induction xs) (simp_all add: split_beta Let_def)

lemma propagate_valn:
  assumes "0 < d" "d \<le> 256"
  shows "fst (propagate m d xs c) * d ^ length xs + valn d (map unat (snd (propagate m d xs c)))
           = m * valn d (map unat xs) + c"
proof (induction xs)
  case Nil
  show ?case by simp
next
  case (Cons x xs)
  obtain c1 ys where p: "propagate m d xs c = (c1, ys)" by (cases "propagate m d xs c")
  have len: "length ys = length xs" using propagate_length [of m d xs c] p by simp
  define q where "q = (c1 + m * unat x) div d"
  define r where "r = (c1 + m * unat x) mod d"
  have "r < 256" using assms unfolding r_def by (meson less_le_trans mod_less_divisor)
  then have u: "unat (of_nat r :: byte) = r" by (simp add: unat_of_nat)
  have ih: "c1 * d ^ length xs + valn d (map unat ys) = m * valn d (map unat xs) + c"
    using Cons.IH p by simp
  have "c1 + m * unat x = d * q + r" by (simp add: q_def r_def)
  then have "(c1 + m * unat x) * d ^ length xs = (d * q + r) * d ^ length xs" by simp
  then have "q * d ^ Suc (length xs) + r * d ^ length xs + valn d (map unat ys)
      = m * (unat x * d ^ length xs + valn d (map unat xs)) + c"
    using ih by (simp add: algebra_simps)
  then show ?case using p u len by (simp add: q_def [symmetric] r_def [symmetric] Let_def)
qed

lemma propagate_digits:
  assumes "0 < d" "d \<le> 256"
  shows "\<forall>y \<in> set (snd (propagate m d xs c)). unat y < d"
proof (induction xs)
  case Nil
  show ?case by simp
next
  case (Cons x xs)
  obtain c1 ys where p: "propagate m d xs c = (c1, ys)" by (cases "propagate m d xs c")
  have "(c1 + m * unat x) mod d < 256" using assms by (meson less_le_trans mod_less_divisor)
  then have "unat (of_nat ((c1 + m * unat x) mod d) :: byte) = (c1 + m * unat x) mod d"
    by (simp add: unat_of_nat)
  then show ?case using Cons.IH p assms by (simp add: Let_def)
qed

lemma valn_less: "\<forall>x \<in> set ns. x < d \<Longrightarrow> valn d ns < d ^ length ns"
proof (induction ns)
  case Nil
  show ?case by simp
next
  case (Cons x ns)
  then have "x + 1 \<le> d" "valn d ns < d ^ length ns" by simp_all
  then have "x * d ^ length ns + valn d ns < (x + 1) * d ^ length ns" by (simp add: algebra_simps)
  also have "\<dots> \<le> d * d ^ length ns" using \<open>x + 1 \<le> d\<close> by (rule mult_le_mono1)
  finally show ?case by simp
qed


lemma valn_ge: "ns \<noteq> [] \<Longrightarrow> hd ns \<noteq> 0 \<Longrightarrow> d ^ (length ns - 1) \<le> valn d ns"
  by (cases ns) (simp_all add: trans_le_add1)

lemma valn_same_length:
  "length xs = length ys \<Longrightarrow> \<forall>x \<in> set xs. x < d \<Longrightarrow> \<forall>y \<in> set ys. y < d
     \<Longrightarrow> valn d xs = valn d ys \<Longrightarrow> xs = ys"
proof (induction xs ys rule: list_induct2)
  case Nil
  show ?case by simp
next
  case (Cons x xs y ys)
  let ?p = "d ^ length xs"
  have lx: "valn d xs < ?p" using Cons.prems(1) by (intro valn_less) simp
  have ly: "valn d ys < ?p" using Cons.prems(2) Cons.hyps by (metis valn_less list.set_intros(2))
  have eq: "x * ?p + valn d xs = y * ?p + valn d ys" using Cons.prems(3) Cons.hyps by simp
  have "0 < ?p" using lx by (cases "?p = 0") simp_all
  then have "(x * ?p + valn d xs) div ?p = x" using lx by simp
  moreover have "(y * ?p + valn d ys) div ?p = y" using ly \<open>0 < ?p\<close> by simp
  ultimately have xy: "x = y" using eq by simp
  with eq have "valn d xs = valn d ys" by simp
  then have "xs = ys" using Cons.IH Cons.prems by simp
  with xy show ?case by simp
qed

lemma valn_unique:
  assumes pos: "0 < d" and dx: "\<forall>x \<in> set xs. x < d" and dy: "\<forall>y \<in> set ys. y < d"
    and cx: "xs = [] \<or> hd xs \<noteq> 0" and cy: "ys = [] \<or> hd ys \<noteq> 0"
    and eq: "valn d xs = valn d ys"
  shows "xs = ys"
proof -
  have no_shorter: "\<not> length us < length vs"
    if du: "\<forall>x \<in> set us. x < d" and cv: "vs = [] \<or> hd vs \<noteq> 0" and e: "valn d us = valn d vs"
    for us vs :: "nat list"
  proof
    assume lt: "length us < length vs"
    then have vs: "vs \<noteq> []" "hd vs \<noteq> 0" using cv by auto
    have d1: "1 \<le> d" using pos by simp
    have "valn d us < d ^ length us" using du by (rule valn_less)
    also have "\<dots> \<le> d ^ (length vs - 1)" using lt d1 by (intro power_increasing) auto
    also have "\<dots> \<le> valn d vs" using vs by (rule valn_ge)
    finally show False using e by simp
  qed
  have "length xs = length ys"
    using no_shorter [OF dx cy eq] no_shorter [OF dy cx eq [symmetric]] by simp
  then show ?thesis using dx dy eq by (rule valn_same_length)
qed

lemma valn_dropWhile: "valn d (dropWhile (\<lambda>n. n = 0) ns) = valn d ns"
  by (induction ns) simp_all

lemma unat_dropWhile:
  "map unat (dropWhile (\<lambda>x. x = 0) (bs :: byte list)) = dropWhile (\<lambda>n. n = 0) (map unat bs)"
  by (induction bs) (simp_all add: unat_eq_0)

lemma canonical_dropWhile: "dropWhile P xs = [] \<or> \<not> P (hd (dropWhile P xs))"
  by (metis hd_dropWhile)


lemma valn_replicate_0: "valn d (replicate n 0) = 0"
  by (induction n) simp_all

lemma unat_byte_less: "unat (x :: byte) < 256"
  using unsigned_less [of x, where 'a = nat] by simp

lemma takeWhile_replicate_append:
  "rest = [] \<or> hd rest \<noteq> a \<Longrightarrow> takeWhile (\<lambda>x. x = a) (replicate z a @ rest) = replicate z a"
  by (induction z) (cases rest; simp)+

lemma dropWhile_replicate_append:
  "rest = [] \<or> hd rest \<noteq> a \<Longrightarrow> dropWhile (\<lambda>x. x = a) (replicate z a @ rest) = rest"
  by (induction z) (cases rest; simp)+

lemma encode_loop_valn:
  "256 ^ length xs * (valn 58 (map unat b) + 1) \<le> 58 ^ length b \<Longrightarrow>
   \<exists>b'. encode_loop xs b = Some b' \<and> length b' = length b
      \<and> valn 58 (map unat b') = valn 58 (map unat b) * 256 ^ length xs + valn 256 (map unat xs)
      \<and> (\<forall>y \<in> set b'. unat y < 58 \<or> y \<in> set b)"
proof (induction xs arbitrary: b)
  case Nil
  show ?case by simp
next
  case (Cons x xs)
  obtain c b1 where p: "propagate 256 58 b (unat x) = (c, b1)"
    by (cases "propagate 256 58 b (unat x)")
  let ?V = "valn 58 (map unat b)"
  have len: "length b1 = length b" using propagate_length [of 256 58 b "unat x"] p by simp
  have v: "c * 58 ^ length b + valn 58 (map unat b1) = 256 * ?V + unat x"
    using propagate_valn [of 58 256 b "unat x"] p by simp
  have dig: "\<forall>y \<in> set b1. unat y < 58"
    using propagate_digits [of 58 256 b "unat x"] p by simp
  have prem: "256 ^ length xs * (256 * (?V + 1)) \<le> 58 ^ length b"
    using Cons.prems by (simp add: algebra_simps)
  have "unat x < 256" by (rule unat_byte_less)
  then have "256 * ?V + unat x < 256 * (?V + 1)" by simp
  also have "\<dots> \<le> 256 ^ length xs * (256 * (?V + 1))" by simp
  also have "\<dots> \<le> 58 ^ length b" by (rule prem)
  finally have small: "c * 58 ^ length b + valn 58 (map unat b1) < 58 ^ length b" using v by simp
  have c0: "c = 0"
  proof (rule ccontr)
    assume "c \<noteq> 0"
    then have "58 ^ length b \<le> c * (58::nat) ^ length b" by simp
    with small show False by simp
  qed
  have v1: "valn 58 (map unat b1) = 256 * ?V + unat x" using v c0 by simp
  have "valn 58 (map unat b1) + 1 \<le> 256 * (?V + 1)"
    using \<open>unat x < 256\<close> v1 by simp
  then have "256 ^ length xs * (valn 58 (map unat b1) + 1) \<le> 256 ^ length xs * (256 * (?V + 1))"
    by (rule mult_le_mono2)
  also have "\<dots> \<le> 58 ^ length b" by (rule prem)
  finally have pre: "256 ^ length xs * (valn 58 (map unat b1) + 1) \<le> 58 ^ length b1"
    using len by simp
  from Cons.IH [OF pre] obtain b' where b':
    "encode_loop xs b1 = Some b'" "length b' = length b1"
    "valn 58 (map unat b') = valn 58 (map unat b1) * 256 ^ length xs + valn 256 (map unat xs)"
    "\<forall>y \<in> set b'. unat y < 58 \<or> y \<in> set b1" by blast
  have "encode_loop (x # xs) b = Some b'" using p c0 b'(1) by simp
  moreover have "length b' = length b" using b'(2) len by simp
  moreover have "valn 58 (map unat b')
      = ?V * 256 ^ length (x # xs) + valn 256 (map unat (x # xs))"
    using b'(3) v1 by (simp add: algebra_simps)
  moreover have "\<forall>y \<in> set b'. unat y < 58 \<or> y \<in> set b" using b'(4) dig by blast
  ultimately show ?case by blast
qed

lemma EncodeBase58_digits:
  "\<exists>ds :: byte list. EncodeBase58 vch =
          Some (replicate (length (takeWhile (\<lambda>x. x = 0) vch)) (CHR ''1'')
                @ map (\<lambda>d. pszBase58 ! unat d) ds)
      \<and> valn 58 (map unat ds) = valn 256 (map unat (dropWhile (\<lambda>x. x = 0) vch))
      \<and> (\<forall>d \<in> set ds. unat d < 58) \<and> (ds = [] \<or> hd ds \<noteq> 0)"
proof -
  let ?rest = "dropWhile (\<lambda>x. x = 0) vch"
  let ?b58 = "replicate (length ?rest * 138 div 100 + 1) (0 :: byte)"
  have "256 ^ length ?rest * (valn 58 (map unat ?b58) + 1) \<le> 58 ^ length ?b58"
    using pow_256_le_58 [of "length ?rest"] by (simp add: valn_replicate_0)
  from encode_loop_valn [OF this] obtain b' where b':
    "encode_loop ?rest ?b58 = Some b'"
    "valn 58 (map unat b') = valn 58 (map unat ?b58) * 256 ^ length ?rest + valn 256 (map unat ?rest)"
    "\<forall>y \<in> set b'. unat y < 58 \<or> y \<in> set ?b58" by blast
  let ?ds = "dropWhile (\<lambda>x. x = 0) b'"
  have e1: "EncodeBase58 vch =
          Some (replicate (length (takeWhile (\<lambda>x. x = 0) vch)) (CHR ''1'')
                @ map (\<lambda>d. pszBase58 ! unat d) ?ds)"
    using b'(1) by (simp add: EncodeBase58_def)
  have e2: "valn 58 (map unat ?ds) = valn 256 (map unat ?rest)"
    using b'(2) by (simp add: unat_dropWhile valn_dropWhile valn_replicate_0)
  have e3: "\<forall>d \<in> set ?ds. unat d < 58"
  proof
    fix d assume "d \<in> set ?ds"
    then have "d \<in> set b'" by (rule set_dropWhileD)
    then show "unat d < 58" using b'(3) by auto
  qed
  have e4: "?ds = [] \<or> hd ?ds \<noteq> 0" by (rule canonical_dropWhile)
  show ?thesis by (rule exI [of _ ?ds]) (intro conjI e1 e2 e3 e4)
qed

lemma EncodeBase58_eqI:
  assumes v: "valn 58 ns = valn 256 (map unat rest)"
    and d: "\<forall>n \<in> set ns. n < 58" and c: "ns = [] \<or> hd ns \<noteq> 0"
    and r: "rest = [] \<or> hd rest \<noteq> 0"
  shows "EncodeBase58 (replicate z 0 @ rest)
           = Some (replicate z (CHR ''1'') @ map (\<lambda>n. pszBase58 ! n) ns)"
proof -
  let ?vch = "replicate z (0 :: byte) @ rest"
  have tw: "takeWhile (\<lambda>x. x = 0) ?vch = replicate z 0"
    using r by (rule takeWhile_replicate_append)
  have dw: "dropWhile (\<lambda>x. x = 0) ?vch = rest"
    using r by (rule dropWhile_replicate_append)
  from EncodeBase58_digits [of ?vch] obtain ds :: "byte list" where ds:
    "EncodeBase58 ?vch = Some (replicate z (CHR ''1'') @ map (\<lambda>d. pszBase58 ! unat d) ds)"
    "valn 58 (map unat ds) = valn 256 (map unat rest)"
    "\<forall>d \<in> set ds. unat d < 58" "ds = [] \<or> hd ds \<noteq> 0"
    unfolding tw dw by auto
  have "map unat ds = ns"
  proof (rule valn_unique [where d = 58])
    show "map unat ds = [] \<or> hd (map unat ds) \<noteq> 0"
      using ds(4) by (cases ds) (simp_all add: unat_eq_0)
  qed (use ds v d c in simp_all)
  then have "map (\<lambda>d. pszBase58 ! unat d) ds = map (\<lambda>n. pszBase58 ! n) ns"
    by (metis (no_types, lifting) map_map comp_def map_eq_conv)
  with ds(1) show ?thesis by simp
qed


lemma pszBase58_length: "length pszBase58 = 58"
  by (simp add: pszBase58_def)

lemma pszBase58_distinct: "distinct pszBase58"
  by (simp add: pszBase58_def)

lemma pszBase58_not_NUL: "c \<in> set pszBase58 \<Longrightarrow> c \<noteq> NUL"
  by (auto simp: pszBase58_def NUL_def)

lemma pszBase58_not_space: "c \<in> set pszBase58 \<Longrightarrow> \<not> isspace c"
  by (auto simp: pszBase58_def isspace_def)

lemma isspace_not_NUL: "isspace c \<Longrightarrow> c \<noteq> NUL"
  by (auto simp: isspace_def NUL_def)

lemma pszBase58_hd: "pszBase58 ! 0 = CHR ''1''"
  by (simp add: pszBase58_def)

lemma strchr_Some:
  "strchr s c = Some i \<Longrightarrow> c \<noteq> NUL \<Longrightarrow> i < length s \<and> s ! i = c"
  by (induction s arbitrary: i) (auto split: if_splits)

lemma strchr_nth: "distinct s \<Longrightarrow> i < length s \<Longrightarrow> strchr s (s ! i) = Some i"
proof (induction s arbitrary: i)
  case Nil
  then show ?case by simp
next
  case (Cons x s)
  show ?case
  proof (cases i)
    case 0
    then show ?thesis by simp
  next
    case (Suc j)
    then have "x \<noteq> s ! j" using Cons.prems by auto
    then show ?thesis using Suc Cons by simp
  qed
qed

lemma strchr_member: "c \<in> set pszBase58 \<Longrightarrow> \<exists>i < 58. strchr pszBase58 c = Some i"
proof -
  assume "c \<in> set pszBase58"
  then obtain i where "i < length pszBase58" "pszBase58 ! i = c" by (auto simp: in_set_conv_nth)
  then show ?thesis using strchr_nth [OF pszBase58_distinct, of i] pszBase58_length by auto
qed

lemma digit_of_nth: "i < 58 \<Longrightarrow> digit_of (pszBase58 ! i) = i"
  by (simp add: digit_of_def strchr_nth pszBase58_distinct pszBase58_length)

lemma propagate_fits:
  assumes "0 < d" "d \<le> 256" "c < m" "m * (valn d (map unat b) + 1) \<le> d ^ length b"
  shows "fst (propagate m d b c) = 0"
    and "valn d (map unat (snd (propagate m d b c))) = m * valn d (map unat b) + c"
proof -
  let ?r = "propagate m d b c"
  have v: "fst ?r * d ^ length b + valn d (map unat (snd ?r)) = m * valn d (map unat b) + c"
    using assms(1,2) by (rule propagate_valn)
  have "m * valn d (map unat b) + c < m * (valn d (map unat b) + 1)" using assms(3) by simp
  then have small: "fst ?r * d ^ length b + valn d (map unat (snd ?r)) < d ^ length b"
    using v assms(4) by simp
  show c0: "fst ?r = 0"
  proof (rule ccontr)
    assume "fst ?r \<noteq> 0"
    then have "d ^ length b \<le> fst ?r * d ^ length b" by simp
    with small show False by simp
  qed
  show "valn d (map unat (snd ?r)) = m * valn d (map unat b) + c" using v c0 by simp
qed

lemma strlen_Cons: "c \<noteq> NUL \<Longrightarrow> strlen (c # cs) = Suc (strlen cs)"
  by (simp add: strlen_def)

lemma bound_step:
  assumes "58 ^ Suc k * (V + 1) \<le> (B :: nat)" "ch < 58"
  shows "58 * (V + 1) \<le> B" and "58 ^ k * (58 * V + ch + 1) \<le> B"
proof -
  have "58 * (V + 1) \<le> 58 ^ k * (58 * (V + 1))" by simp
  also have e: "\<dots> = 58 ^ Suc k * (V + 1)" by (simp add: algebra_simps)
  finally show "58 * (V + 1) \<le> B" using assms(1) by simp
  have "58 * V + ch + 1 \<le> 58 * (V + 1)" using assms(2) by simp
  then have "58 ^ k * (58 * V + ch + 1) \<le> 58 ^ k * (58 * (V + 1))" by (rule mult_le_mono2)
  then show "58 ^ k * (58 * V + ch + 1) \<le> B" using assms(1) e by simp
qed

lemma decode_loop_no_abort:
  "58 ^ strlen p * (valn 256 (map unat b) + 1) \<le> 256 ^ length b
     \<Longrightarrow> decode_loop p b \<noteq> AssertionFailed"
proof (induction p arbitrary: b)
  case Nil
  show ?case by simp
next
  case (Cons c cs)
  show ?case
  proof (cases "c \<noteq> NUL \<and> \<not> isspace c")
    case False
    then show ?thesis by auto
  next
    case True
    show ?thesis
    proof (cases "strchr pszBase58 c")
      case None
      then show ?thesis using True by simp
    next
      case (Some ch)
      have ch: "ch < 58" using strchr_Some [OF Some] True pszBase58_length by simp
      let ?V = "valn 256 (map unat b)"
      have pre: "58 ^ Suc (strlen cs) * (?V + 1) \<le> 256 ^ length b"
        using Cons.prems True by (simp add: strlen_Cons)
      note st = bound_step [OF pre ch]
      have f: "fst (propagate 58 256 b ch) = 0"
        and v: "valn 256 (map unat (snd (propagate 58 256 b ch))) = 58 * ?V + ch"
        using propagate_fits [of 256 ch 58 b] ch st(1) by simp_all
      have "58 ^ strlen cs * (valn 256 (map unat (snd (propagate 58 256 b ch))) + 1)
              \<le> 256 ^ length (snd (propagate 58 256 b ch))"
        using st(2) v by (simp add: propagate_length)
      from Cons.IH [OF this] show ?thesis using True Some f
        by (simp add: split_beta)
    qed
  qed
qed


lemma EncodeBase58_total: "EncodeBase58 vch \<noteq> None"
  using EncodeBase58_digits [of vch] by auto

lemma DecodeBase58_total: "DecodeBase58 psz vch \<noteq> None"
proof -
  let ?psz2 = "dropWhile (\<lambda>c. c = CHR ''1'') (dropWhile (\<lambda>c. c \<noteq> NUL \<and> isspace c) psz)"
  let ?b256 = "replicate (strlen ?psz2 * 733 div 1000 + 1) (0 :: byte)"
  have "58 ^ strlen ?psz2 * (valn 256 (map unat ?b256) + 1) \<le> 256 ^ length ?b256"
    using pow_58_le_256 [of "strlen ?psz2"] by (simp add: valn_replicate_0)
  then have "decode_loop ?psz2 ?b256 \<noteq> AssertionFailed" by (rule decode_loop_no_abort)
  then show ?thesis
    unfolding DecodeBase58_def Let_def by (cases "decode_loop ?psz2 ?b256") auto
qed












lemma base58_char_not_1:
  assumes "ds \<noteq> []" "hd ds \<noteq> 0" "unat (hd ds) < 58"
  shows "hd (map (\<lambda>d. pszBase58 ! unat d) (ds :: byte list)) \<noteq> CHR ''1''"
proof -
  have "unat (hd ds) \<noteq> 0" using assms(2) by (simp add: unat_eq_0)
  then have "pszBase58 ! unat (hd ds) \<noteq> pszBase58 ! 0"
    using assms(3) pszBase58_distinct pszBase58_length by (simp add: nth_eq_iff_index_eq)
  then show ?thesis using assms(1) by (cases ds) (simp_all add: pszBase58_hd)
qed





lemma takeWhile_append_stop:
  "ys = [] \<or> \<not> P (hd ys) \<Longrightarrow> takeWhile P (xs @ ys) = takeWhile P xs"
  by (induction xs) (cases ys; simp)+

lemma dropWhile_append_stop:
  "ys = [] \<or> \<not> P (hd ys) \<Longrightarrow> dropWhile P (xs @ ys) = dropWhile P xs @ ys"
  by (induction xs) (cases ys; simp)+

lemma dropWhile_skip:
  "\<forall>x \<in> set xs. P x \<Longrightarrow> ys = [] \<or> \<not> P (hd ys) \<Longrightarrow> dropWhile P (xs @ ys) = ys"
  by (induction xs) (cases ys; simp)+

lemma takeWhile_eq_replicate:
  "replicate (length (takeWhile (\<lambda>x. x = a) xs)) a = takeWhile (\<lambda>x. x = a) xs"
  by (induction xs) simp_all

lemma map_unat_inj: "map unat xs = map unat (ys :: byte list) \<Longrightarrow> xs = ys"
  by (induction xs arbitrary: ys) (auto simp: word_unat_eq_iff)

lemma strlen_no_NUL: "NUL \<notin> set s \<Longrightarrow> strlen s = length s"
  by (induction s) (auto simp: strlen_def)

lemma decode_loop_alphabet:
  "set m \<subseteq> set pszBase58 \<Longrightarrow> t = [] \<or> hd t = NUL \<or> isspace (hd t)
   \<Longrightarrow> 58 ^ length m * (valn 256 (map unat b) + 1) \<le> 256 ^ length b
   \<Longrightarrow> \<exists>b'. decode_loop (m @ t) b = LoopDone t b' \<and> length b' = length b
         \<and> valn 256 (map unat b')
             = valn 256 (map unat b) * 58 ^ length m + valn 58 (map digit_of m)"
proof (induction m arbitrary: b)
  case Nil
  then show ?case by (cases t) auto
next
  case (Cons c m)
  let ?V = "valn 256 (map unat b)"
  have c: "c \<in> set pszBase58" using Cons.prems(1) by simp
  then have c1: "c \<noteq> NUL \<and> \<not> isspace c" using pszBase58_not_NUL pszBase58_not_space by blast
  from strchr_member [OF c] obtain ch where ch: "ch < 58" "strchr pszBase58 c = Some ch" by blast
  have dg: "digit_of c = ch" using ch(2) by (simp add: digit_of_def)
  have pre: "58 ^ Suc (length m) * (?V + 1) \<le> 256 ^ length b" using Cons.prems(3) by simp
  note st = bound_step [OF pre ch(1)]
  let ?b1 = "snd (propagate 58 256 b ch)"
  have f: "fst (propagate 58 256 b ch) = 0" and v: "valn 256 (map unat ?b1) = 58 * ?V + ch"
    using propagate_fits [of 256 ch 58 b] ch(1) st(1) by simp_all
  have len: "length ?b1 = length b" by (rule propagate_length)
  have "58 ^ length m * (valn 256 (map unat ?b1) + 1) \<le> 256 ^ length ?b1"
    using st(2) v len by simp
  from Cons.IH [OF _ Cons.prems(2) this] Cons.prems(1) obtain b' where b':
    "decode_loop (m @ t) ?b1 = LoopDone t b'" "length b' = length ?b1"
    "valn 256 (map unat b') = valn 256 (map unat ?b1) * 58 ^ length m + valn 58 (map digit_of m)"
    by auto
  have "decode_loop ((c # m) @ t) b = LoopDone t b'"
    using c1 ch(2) f b'(1) by (simp add: split_beta)
  moreover have "length b' = length b" using b'(2) len by simp
  moreover have "valn 256 (map unat b')
      = ?V * 58 ^ length (c # m) + valn 58 (map digit_of (c # m))"
    using b'(3) v dg by (simp add: algebra_simps)
  ultimately show ?case by blast
qed


lemma DecodeBase58_wellformed:
  assumes l: "\<forall>c \<in> set l. isspace c" and m: "set m \<subseteq> set pszBase58"
    and r: "\<forall>c \<in> set r. isspace c"
  shows "\<exists>ds :: byte list.
           DecodeBase58 (l @ m @ r) vch
             = Some (True, replicate (length (takeWhile (\<lambda>c. c = CHR ''1'') m)) 0 @ ds)
         \<and> valn 256 (map unat ds) = valn 58 (map digit_of (dropWhile (\<lambda>c. c = CHR ''1'') m))
         \<and> (ds = [] \<or> hd ds \<noteq> 0)"
proof (cases "m = []")
  case True
  have "\<forall>c \<in> set (l @ r). c \<noteq> NUL \<and> isspace c" using l r isspace_not_NUL by auto
  then have "dropWhile (\<lambda>c. c \<noteq> NUL \<and> isspace c) (l @ r) = []" by (simp only: dropWhile_eq_Nil_conv)
  then have e: "dropWhile (\<lambda>c. c \<noteq> NUL \<and> isspace c) (l @ m @ r) = []" using True by simp
  have "DecodeBase58 (l @ m @ r) vch = Some (True, [])"
    unfolding DecodeBase58_def Let_def e by (simp add: strlen_def)
  then show ?thesis using True by simp
next
  case False
  let ?P = "\<lambda>c. c \<noteq> NUL \<and> isspace c"
  let ?one = "\<lambda>c. c = CHR ''1''"
  let ?m' = "dropWhile ?one m"
  have "hd m \<in> set pszBase58" using False m by auto
  then have "m @ r = [] \<or> \<not> ?P (hd (m @ r))" using False pszBase58_not_space by simp
  moreover have "\<forall>c \<in> set l. ?P c" using l isspace_not_NUL by blast
  ultimately have p1: "dropWhile ?P (l @ m @ r) = m @ r" by (intro dropWhile_skip)
  have r1: "r = [] \<or> \<not> ?one (hd r)" using r by (cases r) (auto simp: isspace_def)
  have tw: "takeWhile ?one (m @ r) = takeWhile ?one m" using r1 by (rule takeWhile_append_stop)
  have dw: "dropWhile ?one (m @ r) = ?m' @ r" using r1 by (rule dropWhile_append_stop)
  have m': "set ?m' \<subseteq> set pszBase58" using m set_dropWhileD by fastforce
  have "NUL \<notin> set (?m' @ r)" using m' r pszBase58_not_NUL isspace_not_NUL by auto
  then have sl: "strlen (?m' @ r) = length ?m' + length r" using strlen_no_NUL by fastforce
  let ?b = "replicate (strlen (?m' @ r) * 733 div 1000 + 1) (0 :: byte)"
  have "(58::nat) ^ length ?m' \<le> 58 ^ strlen (?m' @ r)" unfolding sl by (rule power_increasing) simp_all
  also have "\<dots> \<le> 256 ^ length ?b" using pow_58_le_256 [of "strlen (?m' @ r)"] by simp
  finally have bound: "58 ^ length ?m' * (valn 256 (map unat ?b) + 1) \<le> 256 ^ length ?b"
    by (simp add: valn_replicate_0)
  have r2: "r = [] \<or> hd r = NUL \<or> isspace (hd r)" using r by (cases r) auto
  from decode_loop_alphabet [OF m' r2 bound] obtain b' where b':
    "decode_loop (?m' @ r) ?b = LoopDone r b'"
    "valn 256 (map unat b') = valn 256 (map unat ?b) * 58 ^ length ?m' + valn 58 (map digit_of ?m')"
    by blast
  have r3: "dropWhile isspace r = []" using r by (simp only: dropWhile_eq_Nil_conv)
  let ?ds = "dropWhile (\<lambda>x. x = 0) b'"
  have e1: "DecodeBase58 (l @ m @ r) vch
      = Some (True, replicate (length (takeWhile ?one m)) 0 @ ?ds)"
    unfolding DecodeBase58_def Let_def p1 tw dw b'(1) by (simp add: r3)
  have e2: "valn 256 (map unat ?ds) = valn 58 (map digit_of ?m')"
    using b'(2) by (simp add: unat_dropWhile valn_dropWhile valn_replicate_0)
  have e3: "?ds = [] \<or> hd ?ds \<noteq> 0" by (rule canonical_dropWhile)
  show ?thesis by (rule exI [of _ ?ds]) (intro conjI e1 e2 e3)
qed

lemma Base58_roundtrip:
  "\<exists>s. EncodeBase58 vch = Some s \<and> DecodeBase58 s v0 = Some (True, vch)"
proof -
  let ?z = "length (takeWhile (\<lambda>x. x = 0) vch)"
  let ?rest = "dropWhile (\<lambda>x. x = 0) vch"
  let ?one = "\<lambda>c. c = CHR ''1''"
  from EncodeBase58_digits [of vch] obtain ds58 :: "byte list" where enc:
    "EncodeBase58 vch = Some (replicate ?z (CHR ''1'') @ map (\<lambda>d. pszBase58 ! unat d) ds58)"
    "valn 58 (map unat ds58) = valn 256 (map unat ?rest)"
    "\<forall>d \<in> set ds58. unat d < 58" "ds58 = [] \<or> hd ds58 \<noteq> 0" by blast
  let ?t = "map (\<lambda>d. pszBase58 ! unat d) ds58"
  let ?s = "replicate ?z (CHR ''1'') @ ?t"
  have t: "?t = [] \<or> hd ?t \<noteq> CHR ''1''"
  proof (cases "ds58 = []")
    case True
    then show ?thesis by simp
  next
    case False
    then have "hd ds58 \<noteq> 0" "unat (hd ds58) < 58" using enc(3,4) by auto
    with False show ?thesis using base58_char_not_1 by blast
  qed
  have "CHR ''1'' \<in> set pszBase58" by (simp add: pszBase58_def)
  moreover have "set ?t \<subseteq> set pszBase58" using enc(3) pszBase58_length by auto
  ultimately have s: "set ?s \<subseteq> set pszBase58" by auto
  from DecodeBase58_wellformed [of "[]" ?s "[]" v0] s obtain ds :: "byte list" where dec:
    "DecodeBase58 ?s v0 = Some (True, replicate (length (takeWhile ?one ?s)) 0 @ ds)"
    "valn 256 (map unat ds) = valn 58 (map digit_of (dropWhile ?one ?s))"
    "ds = [] \<or> hd ds \<noteq> 0" by auto
  have tw: "takeWhile ?one ?s = replicate ?z (CHR ''1'')" using t by (rule takeWhile_replicate_append)
  have dw: "dropWhile ?one ?s = ?t" using t by (rule dropWhile_replicate_append)
  have dm: "map digit_of ?t = map unat ds58" using enc(3) by (simp add: digit_of_nth)
  have v: "valn 256 (map unat ds) = valn 256 (map unat ?rest)"
    by (simp only: dec(2) dw dm enc(2))
  have "map unat ds = map unat ?rest"
  proof (rule valn_unique [where d = 256])
    show "map unat ds = [] \<or> hd (map unat ds) \<noteq> 0"
      using dec(3) by (cases ds) (simp_all add: unat_eq_0)
    show "map unat ?rest = [] \<or> hd (map unat ?rest) \<noteq> 0"
      using canonical_dropWhile [of "\<lambda>x. x = 0" vch] by (cases ?rest) (simp_all add: unat_eq_0)
  qed (use v unat_byte_less in auto)
  then have "ds = ?rest" by (rule map_unat_inj)
  then have "replicate (length (takeWhile ?one ?s)) 0 @ ds = vch"
    using tw by (simp add: takeWhile_eq_replicate)
  with enc(1) dec(1) show ?thesis by simp
qed


section \<open>Round trips\<close>


lemma Base58Check_roundtrip:
  assumes "4 \<le> length (Hash b)"
  shows "\<exists>s. EncodeBase58Check Hash b = Some s
             \<and> DecodeBase58Check Hash s vchRet = Some (True, b)"
proof -
  let ?v = "b @ take 4 (Hash b)"
  from Base58_roundtrip [of ?v vchRet] obtain s where s:
    "EncodeBase58 ?v = Some s" "DecodeBase58 s vchRet = Some (True, ?v)" by blast
  have len: "length ?v - 4 = length b" using assms by simp
  have "EncodeBase58Check Hash b = Some s" using s(1) by (simp add: EncodeBase58Check_def)
  moreover have "DecodeBase58Check Hash s vchRet = Some (True, b)"
    unfolding DecodeBase58Check_def s(2) using assms by (simp add: len)
  ultimately show ?thesis by blast
qed



section \<open>DecodeBase58Check and SetString\<close>

lemma DecodeBase58_cases:
  obtains "DecodeBase58 psz vch = Some (False, vch)"
  | d where "DecodeBase58 psz vch = Some (True, d)"
proof -
  let ?psz2 = "dropWhile (\<lambda>c. c = CHR ''1'') (dropWhile (\<lambda>c. c \<noteq> NUL \<and> isspace c) psz)"
  let ?b256 = "replicate (strlen ?psz2 * 733 div 1000 + 1) (0 :: byte)"
  have "DecodeBase58 psz vch = Some (False, vch) \<or> (\<exists>d. DecodeBase58 psz vch = Some (True, d))"
    using DecodeBase58_total [of psz vch] unfolding DecodeBase58_def Let_def
    by (cases "decode_loop ?psz2 ?b256") (auto split: if_splits)
  then show ?thesis using that by blast
qed

text \<open>
  C4. DecodeBase58Check always returns. It returns false exactly when DecodeBase58 returns
  false, or the decoded bytes are fewer than four, or the last four of them differ from the
  first four bytes of the hash of the bytes before them; it returns true exactly in the
  remaining case, and then the output vector holds the decoded bytes without the last four.
\<close>

theorem DecodeBase58Check_result:
  "(\<exists>r. DecodeBase58Check Hash psz vchRet = Some r)
   \<and> ((\<exists>v. DecodeBase58Check Hash psz vchRet = Some (False, v)) \<longleftrightarrow>
        (\<exists>v. DecodeBase58 psz vchRet = Some (False, v))
        \<or> (\<exists>d. DecodeBase58 psz vchRet = Some (True, d)
                \<and> (length d < 4
                    \<or> drop (length d - 4) d \<noteq> take 4 (Hash (take (length d - 4) d)))))
   \<and> (\<forall>v. DecodeBase58Check Hash psz vchRet = Some (True, v) \<longleftrightarrow>
        (\<exists>d. DecodeBase58 psz vchRet = Some (True, d) \<and> 4 \<le> length d
              \<and> drop (length d - 4) d = take 4 (Hash (take (length d - 4) d))
              \<and> v = take (length d - 4) d))"
proof (cases psz vchRet rule: DecodeBase58_cases)
  case 1
  then show ?thesis by (auto simp: DecodeBase58Check_def)
next
  case (2 d)
  then show ?thesis by (auto simp: DecodeBase58Check_def Let_def)
qed

lemma DecodeBase58Check_cases:
  obtains "DecodeBase58Check Hash psz vchRet = Some (False, [])"
  | v where "DecodeBase58Check Hash psz vchRet = Some (True, v)"
proof (cases psz vchRet rule: DecodeBase58_cases)
  case 1
  then have "DecodeBase58Check Hash psz vchRet = Some (False, [])"
    by (simp add: DecodeBase58Check_def)
  then show ?thesis using that by blast
next
  case (2 d)
  then have "DecodeBase58Check Hash psz vchRet = Some (False, [])
      \<or> (\<exists>v. DecodeBase58Check Hash psz vchRet = Some (True, v))"
    by (auto simp: DecodeBase58Check_def Let_def)
  then show ?thesis using that by blast
qed

text \<open>
  C9. \<open>CBase58Data::SetString\<close> always returns. It returns false exactly when
  DecodeBase58Check returns false or decodes fewer than \<open>nVersionBytes\<close> bytes; when it
  returns true, the version is the first \<open>nVersionBytes\<close> decoded bytes and the data are the
  decoded bytes after them.
\<close>

theorem CBase58Data_SetString_result:
  "(\<exists>r. CBase58Data_SetString Hash psz n this = Some r)
   \<and> ((\<exists>t. CBase58Data_SetString Hash psz n this = Some (False, t)) \<longleftrightarrow>
        (\<exists>v. DecodeBase58Check Hash psz [] = Some (False, v))
        \<or> (\<exists>v. DecodeBase58Check Hash psz [] = Some (True, v) \<and> length v < unat n))
   \<and> (\<forall>t. CBase58Data_SetString Hash psz n this = Some (True, t) \<longrightarrow>
        (\<exists>v. DecodeBase58Check Hash psz [] = Some (True, v) \<and> unat n \<le> length v
              \<and> vchVersion t = take (unat n) v \<and> vchData t = drop (unat n) v))"
proof (cases Hash psz "[] :: byte list" rule: DecodeBase58Check_cases)
  case 1
  then show ?thesis by (auto simp: CBase58Data_SetString_def)
next
  case (2 v)
  then show ?thesis by (auto simp: CBase58Data_SetString_def)
qed

text \<open>
  C10. Whenever DecodeBase58Check returns false the output vector is empty, and whenever
  \<open>CBase58Data::SetString\<close> returns false the version and the data are both empty,
  whatever they held before the call; both functions always return.
\<close>

theorem failure_leaves_outputs_empty:
  "(\<exists>r. DecodeBase58Check Hash psz vchRet = Some r)
   \<and> (\<forall>v. DecodeBase58Check Hash psz vchRet = Some (False, v) \<longrightarrow> v = [])
   \<and> (\<exists>r. CBase58Data_SetString Hash psz n this = Some r)
   \<and> (\<forall>t. CBase58Data_SetString Hash psz n this = Some (False, t) \<longrightarrow>
          vchVersion t = [] \<and> vchData t = [])"
proof -
  have a: "(\<exists>r. DecodeBase58Check Hash psz vchRet = Some r)
      \<and> (\<forall>v. DecodeBase58Check Hash psz vchRet = Some (False, v) \<longrightarrow> v = [])"
    by (cases Hash psz vchRet rule: DecodeBase58Check_cases) auto
  have b: "(\<exists>r. CBase58Data_SetString Hash psz n this = Some r)
      \<and> (\<forall>t. CBase58Data_SetString Hash psz n this = Some (False, t) \<longrightarrow>
            vchVersion t = [] \<and> vchData t = [])"
    by (cases Hash psz "[] :: byte list" rule: DecodeBase58Check_cases)
       (auto simp: CBase58Data_SetString_def)
  from a b show ?thesis by blast
qed


lemma DecodeBase58_zero_char: "DecodeBase58 ''0'' vch = Some (False, vch)"
  by (simp add: DecodeBase58_def Let_def isspace_def NUL_def strlen_def pszBase58_def)

theorem DecodeBase58Check_result_witness:
  "\<exists>s. EncodeBase58Check (\<lambda>v. replicate 32 7) [1, 2, 3] = Some s
       \<and> DecodeBase58Check (\<lambda>v. replicate 32 7) s [9] = Some (True, [1, 2, 3])
       \<and> (\<exists>d. DecodeBase58 s [9] = Some (True, d) \<and> 4 \<le> length d
               \<and> drop (length d - 4) d = take 4 (replicate 32 7)
               \<and> [1, 2, 3] = take (length d - 4) d)"
proof -
  let ?H = "\<lambda>v :: byte list. replicate 32 (7 :: byte)"
  from Base58Check_roundtrip [of ?H "[1, 2, 3]" "[9]"] obtain s where s:
    "EncodeBase58Check ?H [1, 2, 3] = Some s"
    "DecodeBase58Check ?H s [9] = Some (True, [1, 2, 3])" by auto
  from DecodeBase58Check_result [of ?H s "[9]"] s(2)
  have "\<exists>d. DecodeBase58 s [9] = Some (True, d) \<and> 4 \<le> length d
               \<and> drop (length d - 4) d = take 4 (replicate 32 7)
               \<and> [1, 2, 3] = take (length d - 4) d" by blast
  with s show ?thesis by blast
qed

theorem CBase58Data_SetString_result_witness:
  "\<exists>s t. EncodeBase58Check (\<lambda>v. replicate 32 7) [1, 2, 3] = Some s
       \<and> CBase58Data_SetString (\<lambda>v. replicate 32 7) s 1 \<lparr>vchVersion = [8], vchData = [9]\<rparr>
            = Some (True, t)
       \<and> (\<exists>v. DecodeBase58Check (\<lambda>v. replicate 32 7) s [] = Some (True, v)
              \<and> unat (1 :: 32 word) \<le> length v
              \<and> vchVersion t = take (unat (1 :: 32 word)) v
              \<and> vchData t = drop (unat (1 :: 32 word)) v)
       \<and> vchVersion t = [1] \<and> vchData t = [2, 3]"
proof -
  let ?H = "\<lambda>v :: byte list. replicate 32 (7 :: byte)"
  let ?c0 = "\<lparr>vchVersion = [8], vchData = [9 :: byte]\<rparr>"
  from Base58Check_roundtrip [of ?H "[1, 2, 3]" "[]"] obtain s where s:
    "EncodeBase58Check ?H [1, 2, 3] = Some s"
    "DecodeBase58Check ?H s [] = Some (True, [1, 2, 3])" by auto
  have t: "CBase58Data_SetString ?H s 1 ?c0 = Some (True, \<lparr>vchVersion = [1], vchData = [2, 3]\<rparr>)"
    by (simp add: CBase58Data_SetString_def s(2))
  from CBase58Data_SetString_result [of ?H s 1 ?c0] t
  have "\<exists>v. DecodeBase58Check ?H s [] = Some (True, v) \<and> unat (1 :: 32 word) \<le> length v
        \<and> vchVersion \<lparr>vchVersion = [1], vchData = [2, 3 :: byte]\<rparr> = take (unat (1 :: 32 word)) v
        \<and> vchData \<lparr>vchVersion = [1], vchData = [2, 3 :: byte]\<rparr> = drop (unat (1 :: 32 word)) v"
    by blast
  with s(1) t show ?thesis by (intro exI [of _ s] exI [of _ "\<lparr>vchVersion = [1], vchData = [2, 3]\<rparr>"]) simp
qed

theorem failure_leaves_outputs_empty_witness:
  "DecodeBase58Check (\<lambda>v. replicate 32 7) ''0'' [1, 2] = Some (False, [])
   \<and> (\<exists>t. CBase58Data_SetString (\<lambda>v. replicate 32 7) ''0'' 1 \<lparr>vchVersion = [8], vchData = [9]\<rparr>
            = Some (False, t) \<and> vchVersion t = [] \<and> vchData t = [])"
proof -
  let ?H = "\<lambda>v :: byte list. replicate 32 (7 :: byte)"
  let ?c0 = "\<lparr>vchVersion = [8], vchData = [9 :: byte]\<rparr>"
  have d: "DecodeBase58Check ?H ''0'' w = Some (False, [])" for w
    by (simp add: DecodeBase58Check_def DecodeBase58_zero_char)
  have "\<exists>t. CBase58Data_SetString ?H ''0'' 1 ?c0 = Some (False, t)"
    by (simp add: CBase58Data_SetString_def d)
  with d [of "[1, 2]"] failure_leaves_outputs_empty [of ?H "''0''" "[1, 2]" 1 ?c0]
  show ?thesis by blast
qed

text \<open>
  C8. When \<open>CBitcoinSecret::SetString\<close> returns true, the data part stored by
  \<open>CBase58Data::SetString\<close> has length 32, or length 33 with last byte 1, and the version
  part is the secret-key prefix of the chain parameters; \<open>GetKey\<close> then yields the first 32
  data bytes as the key, with the compression flag set exactly when the data length is 33.
\<close>

theorem CBitcoinSecret_SetString_success:
  assumes "CBitcoinSecret_SetString Hash Params n pszSecret this = Some (True, t)"
  shows "CBase58Data_SetString Hash pszSecret n this = Some (True, t)
         \<and> (length (vchData t) = 32 \<or> (length (vchData t) = 33 \<and> last (vchData t) = 1))
         \<and> vchVersion t = Params SECRET_KEY
         \<and> CBitcoinSecret_GetKey t
             = Some \<lparr>key = take 32 (vchData t), compressed = (length (vchData t) = 33)\<rparr>"
proof -
  from assms have b: "CBase58Data_SetString Hash pszSecret n this = Some (True, t)"
    and v: "CBitcoinSecret_IsValid Params t"
    by (auto simp: CBitcoinSecret_SetString_def split: option.splits)
  from v have f: "length (vchData t) = 32 \<or> (length (vchData t) = 33 \<and> vchData t ! 32 = 1)"
    and ver: "vchVersion t = Params SECRET_KEY"
    by (auto simp: CBitcoinSecret_IsValid_def)
  have l: "last (vchData t) = vchData t ! 32" if "length (vchData t) = 33"
  proof -
    have "vchData t \<noteq> []" using that by auto
    then show ?thesis using that by (simp add: last_conv_nth)
  qed
  have g: "CBitcoinSecret_GetKey t
      = Some \<lparr>key = take 32 (vchData t), compressed = (length (vchData t) = 33)\<rparr>"
    using f by (auto simp: CBitcoinSecret_GetKey_def)
  from b f ver g l show ?thesis by auto
qed

theorem CBitcoinSecret_SetString_success_witness:
  "\<exists>s t. EncodeBase58Check (\<lambda>v. replicate 32 7) (128 # replicate 32 5 @ [1]) = Some s
      \<and> CBitcoinSecret_SetString (\<lambda>v. replicate 32 7) (\<lambda>k. [128]) 1 s
           \<lparr>vchVersion = [], vchData = []\<rparr> = Some (True, t)
      \<and> length (vchData t) = 33 \<and> last (vchData t) = 1 \<and> vchVersion t = [128]
      \<and> CBitcoinSecret_GetKey t = Some \<lparr>key = replicate 32 5, compressed = True\<rparr>"
proof -
  let ?H = "\<lambda>v :: byte list. replicate 32 (7 :: byte)"
  let ?P = "\<lambda>k :: Base58Type. [128 :: byte]"
  let ?c0 = "\<lparr>vchVersion = [], vchData = [] :: byte list\<rparr>"
  let ?t = "\<lparr>vchVersion = [128], vchData = replicate 32 5 @ [1 :: byte]\<rparr>"
  from Base58Check_roundtrip [of ?H "128 # replicate 32 5 @ [1]" "[]"] obtain s where s:
    "EncodeBase58Check ?H (128 # replicate 32 5 @ [1]) = Some s"
    "DecodeBase58Check ?H s [] = Some (True, 128 # replicate 32 5 @ [1])" by auto
  have b: "CBase58Data_SetString ?H s 1 ?c0 = Some (True, ?t)"
    by (simp add: CBase58Data_SetString_def s(2))
  have "(replicate 32 5 @ [1 :: byte]) ! 32 = 1" by (simp add: nth_append)
  then have "CBitcoinSecret_IsValid ?P ?t" by (simp add: CBitcoinSecret_IsValid_def)
  with b have t: "CBitcoinSecret_SetString ?H ?P 1 s ?c0 = Some (True, ?t)"
    by (simp add: CBitcoinSecret_SetString_def)
  from CBitcoinSecret_SetString_success [OF t]
  have "CBitcoinSecret_GetKey ?t = Some \<lparr>key = replicate 32 5, compressed = True\<rparr>" by simp
  with s(1) t show ?thesis by (intro exI [of _ s] exI [of _ ?t]) simp
qed


section \<open>Accepted and rejected strings\<close>


















section \<open>Address validity\<close>

lemma CBase58Data_ToString_total: "\<exists>address. CBase58Data_ToString Hash a = Some address"
  using EncodeBase58_total [of "(vchVersion a @ vchData a) @ take 4 (Hash (vchVersion a @ vchData a))"]
  by (auto simp: CBase58Data_ToString_def EncodeBase58Check_def Let_def)

text \<open>
  C3, as the code has it. \<open>IsValid(params)\<close> is true exactly when the data are 20 bytes long
  and the version is the key-hash or the script-hash prefix. The argument-less
  \<open>IsValid()\<close> always returns, and is true exactly when, in addition, the Base58Check
  text of the address is none of the strings of its hard-coded list.
\<close>

theorem CBitcoinAddress_IsValid_iff:
  "(CBitcoinAddress_IsValid_params params a \<longleftrightarrow>
      length (vchData a) = 20
      \<and> (vchVersion a = params PUBKEY_ADDRESS \<or> vchVersion a = params SCRIPT_ADDRESS))
   \<and> (\<exists>address. CBase58Data_ToString Hash a = Some address
         \<and> CBitcoinAddress_IsValid Hash params a
             = Some (address \<notin> set disabled_addresses \<and> length (vchData a) = 20
                     \<and> (vchVersion a = params PUBKEY_ADDRESS
                         \<or> vchVersion a = params SCRIPT_ADDRESS)))"
proof -
  from CBase58Data_ToString_total [of Hash a] obtain address where
    s: "CBase58Data_ToString Hash a = Some address" by blast
  have p: "CBitcoinAddress_IsValid_params params a \<longleftrightarrow>
      length (vchData a) = 20
      \<and> (vchVersion a = params PUBKEY_ADDRESS \<or> vchVersion a = params SCRIPT_ADDRESS)"
    by (simp add: CBitcoinAddress_IsValid_params_def)
  have "CBitcoinAddress_IsValid Hash params a
      = Some (address \<notin> set disabled_addresses \<and> length (vchData a) = 20
              \<and> (vchVersion a = params PUBKEY_ADDRESS \<or> vchVersion a = params SCRIPT_ADDRESS))"
    unfolding CBitcoinAddress_IsValid_def s using p by simp
  with s p show ?thesis by blast
qed

lemma disabled_address_digits:
  "EncodeBase58 [25, 89, 121, 180, 207, 188, 98, 215, 138, 25, 124, 33, 95, 70, 207, 68, 241, 28, 117, 255, 139, 69, 191, 199, 74] = Some ''BCcBZ6B5sTtZPS4FhJ2PaToAayNahvKeKb''"
proof -
  have "EncodeBase58 (replicate 0 0 @ [25, 89, 121, 180, 207, 188, 98, 215, 138, 25, 124, 33, 95, 70, 207, 68, 241, 28, 117, 255, 139, 69, 191, 199, 74])
      = Some (replicate 0 (CHR ''1'') @ map (\<lambda>n. pszBase58 ! n) [10, 11, 35, 10, 32, 5, 10, 4, 50, 26, 51, 32, 22, 25, 3, 14, 40, 17, 1, 22, 33, 26, 46, 9, 33, 56, 21, 33, 40, 53, 18, 37, 18, 34])"
  proof (rule EncodeBase58_eqI)
    show "valn 58 [10, 11, 35, 10, 32, 5, 10, 4, 50, 26, 51, 32, 22, 25, 3, 14, 40, 17, 1, 22, 33, 26, 46, 9, 33, 56, 21, 33, 40, 53, 18, 37, 18, 34]
        = valn 256 (map unat ([25, 89, 121, 180, 207, 188, 98, 215, 138, 25, 124, 33, 95, 70, 207, 68, 241, 28, 117, 255, 139, 69, 191, 199, 74] :: byte list))"
      by simp
  qed simp_all
  moreover have "map (\<lambda>n. pszBase58 ! n) [10, 11, 35, 10, 32, 5, 10, 4, 50, 26, 51, 32, 22, 25, 3, 14, 40, 17, 1, 22, 33, 26, 46, 9, 33, 56, 21, 33, 40, 53, 18, 37, 18, 34] = ''BCcBZ6B5sTtZPS4FhJ2PaToAayNahvKeKb''"
    by (simp add: pszBase58_def)
  ultimately show ?thesis by simp
qed

text \<open>
  The key-hash address with version byte 25 and the 20 data bytes below has the text
  \<open>BCcBZ6B5sTtZPS4FhJ2PaToAayNahvKeKb\<close>, the first string of the list, when the hash of its 21 bytes is the digest
  below (their double SHA-256). \<open>IsValid()\<close> is false for it, although its data are 20
  bytes long and its version is the key-hash prefix.
\<close>

theorem CBitcoinAddress_IsValid_counterexample:
  "CBitcoinAddress_IsValid (\<lambda>v. [69, 191, 199, 74, 41, 249, 236, 22, 219, 244, 114, 4, 42, 139, 34, 180, 160, 221, 102, 190, 232, 185, 178, 26, 188, 44, 121, 51, 196, 112, 180, 229]) (\<lambda>k. [25])
      \<lparr>vchVersion = [25], vchData = [89, 121, 180, 207, 188, 98, 215, 138, 25, 124, 33, 95, 70, 207, 68, 241, 28, 117, 255, 139]\<rparr> = Some False
   \<and> length (vchData \<lparr>vchVersion = [25], vchData = [89, 121, 180, 207, 188, 98, 215, 138, 25, 124, 33, 95, 70, 207, 68, 241, 28, 117, 255, 139]\<rparr>) = 20
   \<and> vchVersion \<lparr>vchVersion = [25], vchData = [89, 121, 180, 207, 188, 98, 215, 138, 25, 124, 33, 95, 70, 207, 68, 241, 28, 117, 255, 139]\<rparr> = (\<lambda>k. [25]) PUBKEY_ADDRESS"
proof -
  have "CBase58Data_ToString (\<lambda>v. [69, 191, 199, 74, 41, 249, 236, 22, 219, 244, 114, 4, 42, 139, 34, 180, 160, 221, 102, 190, 232, 185, 178, 26, 188, 44, 121, 51, 196, 112, 180, 229]) \<lparr>vchVersion = [25], vchData = [89, 121, 180, 207, 188, 98, 215, 138, 25, 124, 33, 95, 70, 207, 68, 241, 28, 117, 255, 139]\<rparr> = Some ''BCcBZ6B5sTtZPS4FhJ2PaToAayNahvKeKb''"
    using disabled_address_digits by (simp add: CBase58Data_ToString_def EncodeBase58Check_def)
  moreover have "''BCcBZ6B5sTtZPS4FhJ2PaToAayNahvKeKb'' \<in> set disabled_addresses" by (simp add: disabled_addresses_def)
  ultimately show ?thesis by (simp add: CBitcoinAddress_IsValid_def)
qed

end
